theory Spec2Isabelle
  imports Complex_Main "HOL-Library.Word" "HOL-Library.AList" "HOL-Library.Char_ord"
    "HOL-Library.List_Lexorder" "HOL-Library.Product_Lexorder"
begin

unbundle bit_operations_syntax

section \<open>Errors and values\<close>

text \<open>
  The exceptions the notebook's functions can raise: Python's own (\<open>IndexError\<close> for
  \<open>xs[0]\<close> on an empty list, \<open>KeyError\<close> for a missing dictionary key,
  \<open>AttributeError\<close> for \<open>None.encode\<close>, \<open>ValueError\<close> for a field a Row does not
  have) and those of networkx (\<open>NetworkXError\<close> for a node that is not in the graph,
  \<open>NodeNotFound\<close> and \<open>NetworkXNoPath\<close> of \<open>shortest_path\<close>).
\<close>

datatype error =
  IndexError | KeyError | AttributeError | ValueError
  | NetworkXError | NodeNotFound | NetworkXNoPath

text \<open>
  The value of a categorical feature as it arrives in a collected Row: a string, an
  integer (the source converts it with \<open>str\<close>) or \<open>None\<close>.
\<close>

datatype val = VNone | VInt int | VStr string

section \<open>The tree: a networkx DiGraph with node attributes\<close>

text \<open>
  Node ids are Python integers. The attributes are the ones \<open>build_tree\<close> stores and the
  later stages read; \<open>label\<close> and \<open>fillcolor\<close> only serve the drawing of the tree and
  are left out. The root is created without \<open>hit_percentage\<close>, \<open>refusal_percentage\<close>
  and \<open>hit_counts\<close>, so these three are optional.
\<close>

type_synonym node = int

record node_attrs =
  depth :: int
  key :: string
  profile_type :: string
  total_count :: int
  hit_percentage :: "rat option"
  refusal_percentage :: "rat option"
  hit_counts :: "(string \<times> int) list option"

text \<open>
  networkx keeps nodes and adjacency in insertion-ordered dictionaries: \<open>nodes\<close> lists
  the nodes in the order of \<open>tree.nodes()\<close>, \<open>edges\<close> the edges in the order they were
  added, so that \<open>successors\<close> and \<open>predecessors\<close> come out in networkx's order.
\<close>

record digraph =
  nodes :: "(node \<times> node_attrs) list"
  edges :: "(node \<times> node) list"

definition node_ids :: "digraph \<Rightarrow> node list" where
  "node_ids G = map fst (nodes G)"

definition has_node :: "digraph \<Rightarrow> node \<Rightarrow> bool" where
  "has_node G n = (n \<in> set (node_ids G))"

definition node_attr :: "digraph \<Rightarrow> node \<Rightarrow> node_attrs option" where
  "node_attr G n = map_of (nodes G) n"

definition successors :: "digraph \<Rightarrow> node \<Rightarrow> node list" where
  "successors G n = map snd (filter (\<lambda>e. fst e = n) (edges G))"

definition predecessors :: "digraph \<Rightarrow> node \<Rightarrow> node list" where
  "predecessors G n = map fst (filter (\<lambda>e. snd e = n) (edges G))"

definition out_degree :: "digraph \<Rightarrow> node \<Rightarrow> nat" where
  "out_degree G n = length (successors G n)"

definition in_degree :: "digraph \<Rightarrow> node \<Rightarrow> nat" where
  "in_degree G n = length (predecessors G n)"

text \<open>\<open>tree.remove_node(n)\<close>: the node and every edge at it go; a missing node raises.\<close>

definition remove_node :: "digraph \<Rightarrow> node \<Rightarrow> error + digraph" where
  "remove_node G n =
     (if has_node G n
      then Inr \<lparr>nodes = filter (\<lambda>p. fst p \<noteq> n) (nodes G),
                edges = filter (\<lambda>e. fst e \<noteq> n \<and> snd e \<noteq> n) (edges G)\<rparr>
      else Inl NetworkXError)"

text \<open>\<open>for c in cs: tree.remove_node(c)\<close>\<close>

fun remove_nodes :: "digraph \<Rightarrow> node list \<Rightarrow> error + digraph" where
  "remove_nodes G [] = Inr G"
| "remove_nodes G (c # cs) =
     (case remove_node G c of Inl e \<Rightarrow> Inl e | Inr G' \<Rightarrow> remove_nodes G' cs)"

section \<open>Classification rule\<close>

text \<open>
  Spark's \<open>F.when(c1, v1).when(c2, v2).otherwise(d)\<close>: the value of the first condition
  that holds, else the default. The outcome columns are non-null booleans, so the
  averages and the conditions over them are never null.
\<close>

fun sql_when :: "(bool \<times> 'a) list \<Rightarrow> 'a \<Rightarrow> 'a" where
  "sql_when [] d = d"
| "sql_when ((c, v) # ws) d = (if c then v else sql_when ws d)"

text \<open>
  The \<open>profile_type\<close> column of \<open>build_tree\<close> (lines 156-170). \<open>hit\<close> is the column
  \<open>applicant_hit_percentage\<close>, \<open>refusal\<close> the column \<open>refusal_percentage\<close>; both are
  fractions, the thresholds percentages. Spark's doubles are taken as rationals.
\<close>

definition classify :: "rat \<Rightarrow> rat \<Rightarrow> rat \<Rightarrow> rat \<Rightarrow> rat \<Rightarrow> string" where
  "classify hit refusal chance_max_hit_percentage_threshold
      chance_max_refusal_percentage_threshold risk_min_hit_percentage_threshold =
     sql_when
       [(hit \<le> chance_max_hit_percentage_threshold / 100
           \<and> refusal \<le> chance_max_refusal_percentage_threshold / 100, ''chance''),
        (hit \<ge> risk_min_hit_percentage_threshold / 100, ''risk'')]
       ''inbetween''"

section \<open>prune_tree\<close>

definition leaves :: "digraph \<Rightarrow> node list" where
  "leaves G = filter (\<lambda>x. out_degree G x = 0) (node_ids G)"

definition leaves_of_type_inbetween :: "digraph \<Rightarrow> node list" where
  "leaves_of_type_inbetween G =
     filter (\<lambda>leaf_node. map_option profile_type (node_attr G leaf_node) = Some ''inbetween'')
       (leaves G)"

text \<open>
  \<open>[[node for node in tree.predecessors(leaf)][0] for leaf in leaves]\<close>: the first
  predecessor of every leaf; \<open>[0]\<close> raises IndexError on a leaf that has none.
\<close>

fun first_predecessors :: "digraph \<Rightarrow> node list \<Rightarrow> error + node list" where
  "first_predecessors G [] = Inr []"
| "first_predecessors G (leaf # ls) =
     (case predecessors G leaf of
        [] \<Rightarrow> Inl IndexError
      | p # _ \<Rightarrow> (case first_predecessors G ls of Inl e \<Rightarrow> Inl e | Inr ps \<Rightarrow> Inr (p # ps)))"

text \<open>
  Iterating a Python \<open>set\<close> of integers: each element once. CPython walks its hash
  table, which for the small node ids of a tree is ascending order; the theorems below
  use only that the elements are those of the list.
\<close>

definition py_set :: "int list \<Rightarrow> int list" where
  "py_set xs = sort (remdups xs)"

text \<open>\<open>[tree.nodes[child]["profile_type"] for child in children]\<close>\<close>

fun child_types :: "digraph \<Rightarrow> node list \<Rightarrow> error + string list" where
  "child_types G [] = Inr []"
| "child_types G (child # cs) =
     (case node_attr G child of
        None \<Rightarrow> Inl KeyError
      | Some a \<Rightarrow> (case child_types G cs of Inl e \<Rightarrow> Inl e | Inr ts \<Rightarrow> Inr (profile_type a # ts)))"

text \<open>
  The body of the loop over \<open>parents_of_leaves\<close> (lines 355-381) for one parent. The
  state is the tree and \<open>last_run_clear\<close>. \<open>num_unique_leaf_types == 1 and
  list(unique_leaf_types)[0] == parent_type\<close> reads the one element of a one-element set.
\<close>

definition prune_parent :: "int \<Rightarrow> digraph \<times> bool \<Rightarrow> node \<Rightarrow> error + digraph \<times> bool" where
  "prune_parent min_depth_required s parent_id =
     (case node_attr (fst s) parent_id of
        None \<Rightarrow> Inl KeyError
      | Some parent \<Rightarrow>
          if depth parent < min_depth_required then Inr s
          else
            let children = successors (fst s) parent_id;
                children_outdegrees = map (out_degree (fst s)) children
            in if set children_outdegrees \<noteq> {0} then Inr s
               else
                 (case child_types (fst s) children of
                    Inl e \<Rightarrow> Inl e
                  | Inr leaf_types \<Rightarrow>
                      if (case remdups leaf_types of
                            [t] \<Rightarrow> t = profile_type parent
                          | _ \<Rightarrow> False)
                      then (case remove_nodes (fst s) children of
                              Inl e \<Rightarrow> Inl e
                            | Inr G' \<Rightarrow> Inr (G', False))
                      else Inr s))"

text \<open>\<open>for parent_id in parents_of_leaves: ...\<close>\<close>

fun prune_parents :: "int \<Rightarrow> node list \<Rightarrow> digraph \<times> bool \<Rightarrow> error + digraph \<times> bool" where
  "prune_parents min_depth_required [] s = Inr s"
| "prune_parents min_depth_required (parent_id # ps) s =
     (case prune_parent min_depth_required s parent_id of
        Inl e \<Rightarrow> Inl e
      | Inr s' \<Rightarrow> prune_parents min_depth_required ps s')"

text \<open>
  One run of the body of \<open>while not last_run_clear\<close> (lines 334-381): the tree after the
  run and the value of \<open>last_run_clear\<close> at its end.
\<close>

definition prune_pass :: "int \<Rightarrow> digraph \<Rightarrow> error + digraph \<times> bool" where
  "prune_pass min_depth_required G =
     (let inbetween = leaves_of_type_inbetween G in
      case remove_nodes G inbetween of
        Inl e \<Rightarrow> Inl e
      | Inr G1 \<Rightarrow>
          (case first_predecessors G1 (leaves G1) of
             Inl e \<Rightarrow> Inl e
           | Inr parents_of_leaves \<Rightarrow>
               prune_parents min_depth_required (py_set parents_of_leaves)
                 (G1, inbetween = [])))"

text \<open>
  The while loop itself. \<open>None\<close> stands for a loop that never ends; \<open>Some (Inl e)\<close> for
  an exception leaving the function; \<open>Some (Inr G)\<close> for the tree it leaves behind.
\<close>

partial_function (option) prune_tree :: "digraph \<Rightarrow> int \<Rightarrow> (error + digraph) option" where
  "prune_tree tree min_depth_required =
     (case prune_pass min_depth_required tree of
        Inl e \<Rightarrow> Some (Inl e)
      | Inr r \<Rightarrow> if snd r then Some (Inr (fst r)) else prune_tree (fst r) min_depth_required)"

section \<open>nx.shortest_path\<close>

text \<open>
  \<open>nx.shortest_path(G, source, target)\<close> raises NodeNotFound when an end point is not in
  the graph and NetworkXNoPath when no path exists. In a graph whose nodes have at most
  one incoming edge the path to \<open>target\<close>, if there is one, is unique and is found by
  walking up the predecessors; a walk longer than the number of nodes is in a cycle and
  never reaches \<open>source\<close>. The model is exact on such graphs, and every tree is one.
\<close>

fun walk_up :: "nat \<Rightarrow> digraph \<Rightarrow> node \<Rightarrow> node \<Rightarrow> node list \<Rightarrow> error + node list" where
  "walk_up 0 G source x acc = (if x = source then Inr (x # acc) else Inl NetworkXNoPath)"
| "walk_up (Suc fuel) G source x acc =
     (if x = source then Inr (x # acc)
      else case predecessors G x of
             [] \<Rightarrow> Inl NetworkXNoPath
           | p # _ \<Rightarrow> walk_up fuel G source p (x # acc))"

definition shortest_path :: "digraph \<Rightarrow> node \<Rightarrow> node \<Rightarrow> error + node list" where
  "shortest_path G source target =
     (if has_node G source \<and> has_node G target
      then walk_up (length (nodes G)) G source target []
      else Inl NodeNotFound)"

text \<open>
  The leaves that stand for a profile: \<open>[x for x in tree.nodes() if tree.out_degree(x) == 0
  and tree.in_degree(x) == 1]\<close>, and the list of their paths from the root.
\<close>

definition profile_leaves :: "digraph \<Rightarrow> node list" where
  "profile_leaves G = filter (\<lambda>x. out_degree G x = 0 \<and> in_degree G x = 1) (node_ids G)"

fun paths_to_leaves :: "digraph \<Rightarrow> node \<Rightarrow> node list \<Rightarrow> error + node list list" where
  "paths_to_leaves G source [] = Inr []"
| "paths_to_leaves G source (x # xs) =
     (case shortest_path G source x of
        Inl e \<Rightarrow> Inl e
      | Inr path \<Rightarrow>
          (case paths_to_leaves G source xs of Inl e \<Rightarrow> Inl e | Inr ps \<Rightarrow> Inr (path # ps)))"

section \<open>filter_leaves_under_minimum_depth\<close>

text \<open>
  The body of \<open>for node in path[::-1]\<close> (lines 414-418). \<open>tree.out_degree(node)\<close> on a
  node that is no longer in the tree raises NetworkXError. The counter
  \<open>num_removed_nodes\<close> is only printed and is left out.
\<close>

definition remove_if_childless :: "digraph \<Rightarrow> node \<Rightarrow> error + digraph" where
  "remove_if_childless G n =
     (if has_node G n
      then (if out_degree G n = 0 then remove_node G n else Inr G)
      else Inl NetworkXError)"

fun remove_childless :: "digraph \<Rightarrow> node list \<Rightarrow> error + digraph" where
  "remove_childless G [] = Inr G"
| "remove_childless G (n # ns) =
     (case remove_if_childless G n of Inl e \<Rightarrow> Inl e | Inr G' \<Rightarrow> remove_childless G' ns)"

text \<open>\<open>for path in paths_to_leaves\<close> (lines 404-418)\<close>

fun filter_paths :: "int \<Rightarrow> digraph \<Rightarrow> node list list \<Rightarrow> error + digraph" where
  "filter_paths min_depth_required G [] = Inr G"
| "filter_paths min_depth_required G (path # paths) =
     (if int (length path) > min_depth_required
      then filter_paths min_depth_required G paths
      else case remove_childless G (rev path) of
             Inl e \<Rightarrow> Inl e
           | Inr G' \<Rightarrow> filter_paths min_depth_required G' paths)"

definition filter_leaves_under_minimum_depth :: "digraph \<Rightarrow> int \<Rightarrow> node \<Rightarrow> error + digraph" where
  "filter_leaves_under_minimum_depth tree min_depth_required root_node_id =
     (case paths_to_leaves tree root_node_id (profile_leaves tree) of
        Inl e \<Rightarrow> Inl e
      | Inr paths \<Rightarrow> filter_paths min_depth_required tree paths)"

section \<open>export_profiles_to_dict_from_tree\<close>

text \<open>
  A profile is the dictionary \<open>profile_temp\<close>; its \<open>features\<close> dictionary is an
  association list in insertion order, written with the dictionary's own update (a key
  that is already there keeps its place and takes the new value).
\<close>

record profile =
  prof_type :: string
  prof_hit_percentage :: rat
  prof_refusal_percentage :: rat
  prof_size :: int
  prof_hit_counts :: "(string \<times> int) list"
  prof_features :: "(string \<times> string) list"

text \<open>
  \<open>for fragment_index, fragment in enumerate(path[1:])\<close> (lines 464-468);
  \<open>dimensions[fragment_index]\<close> raises IndexError past the end of the list.
\<close>

fun path_features ::
  "digraph \<Rightarrow> string list \<Rightarrow> nat \<Rightarrow> node list \<Rightarrow> (string \<times> string) list
     \<Rightarrow> error + (string \<times> string) list" where
  "path_features G dimensions fragment_index [] features = Inr features"
| "path_features G dimensions fragment_index (fragment # rest) features =
     (if fragment_index < length dimensions
      then (case node_attr G fragment of
              None \<Rightarrow> Inl KeyError
            | Some a \<Rightarrow>
                path_features G dimensions (Suc fragment_index) rest
                  (AList.update (dimensions ! fragment_index) (key a) features))
      else Inl IndexError)"

text \<open>The body of the loop over the paths (lines 447-472) for one path.\<close>

definition export_profile :: "digraph \<Rightarrow> string list \<Rightarrow> node list \<Rightarrow> error + profile" where
  "export_profile G dimensions path =
     (if path = [] then Inl IndexError
      else case node_attr G (last path) of
        None \<Rightarrow> Inl KeyError
      | Some leaf_node \<Rightarrow>
          (case hit_percentage leaf_node of
             None \<Rightarrow> Inl KeyError
           | Some h \<Rightarrow>
               (case refusal_percentage leaf_node of
                  None \<Rightarrow> Inl KeyError
                | Some r \<Rightarrow>
                    (case hit_counts leaf_node of
                       None \<Rightarrow> Inl KeyError
                     | Some hc \<Rightarrow>
                         (case path_features G dimensions 0 (tl path) [] of
                            Inl e \<Rightarrow> Inl e
                          | Inr fs \<Rightarrow>
                              Inr \<lparr>prof_type = profile_type leaf_node,
                                   prof_hit_percentage = h / 100,
                                   prof_refusal_percentage = r / 100,
                                   prof_size = total_count leaf_node,
                                   prof_hit_counts = hc,
                                   prof_features = fs\<rparr>)))))"

fun export_paths :: "digraph \<Rightarrow> string list \<Rightarrow> node list list \<Rightarrow> error + profile list" where
  "export_paths G dimensions [] = Inr []"
| "export_paths G dimensions (path # paths) =
     (case export_profile G dimensions path of
        Inl e \<Rightarrow> Inl e
      | Inr p \<Rightarrow>
          (case export_paths G dimensions paths of Inl e \<Rightarrow> Inl e | Inr ps \<Rightarrow> Inr (p # ps)))"

text \<open>
  The dictionary \<open>profiles\<close> has the keys \<open>0, 1, ...\<close> in the order of the paths: it is
  the list of its values. The paths start at the literal node \<open>0\<close> (line 439).
\<close>

definition export_profiles_to_dict_from_tree ::
  "digraph \<Rightarrow> string list \<Rightarrow> node \<Rightarrow> error + profile list" where
  "export_profiles_to_dict_from_tree G dimensions root_node_id =
     (case paths_to_leaves G 0 (profile_leaves G) of
        Inl e \<Rightarrow> Inl e
      | Inr paths \<Rightarrow> export_paths G dimensions paths)"

section \<open>json.dumps\<close>

text \<open>
  \<open>json.dumps\<close> of a dictionary from feature names to values, with Python's defaults:
  the separators \<open>", "\<close> and \<open>": "\<close>, and \<open>ensure_ascii\<close>, under which every
  character outside the printable ASCII range is written as an escape. A character is
  a code point below 256. \<open>str_int\<close> is Python's \<open>str\<close> on an integer.
\<close>

definition hex_digit :: "nat \<Rightarrow> char" where
  "hex_digit n = ''0123456789abcdef'' ! (n mod 16)"

function digits10 :: "nat \<Rightarrow> string" where
  "digits10 n = (if n < 10 then [hex_digit n] else digits10 (n div 10) @ [hex_digit (n mod 10)])"
  by pat_completeness auto
termination
  by (relation "measure id") auto

declare digits10.simps [simp del]

definition str_int :: "int \<Rightarrow> string" where
  "str_int i = (if i < 0 then CHR ''-'' # digits10 (nat (- i)) else digits10 (nat i))"

definition json_escape :: "char \<Rightarrow> string" where
  "json_escape c =
     (if c = CHR 0x22 then [CHR 0x5C, CHR 0x22]
      else if c = CHR 0x5C then [CHR 0x5C, CHR 0x5C]
      else if c = CHR 0x0A then [CHR 0x5C, CHR ''n'']
      else if c = CHR 0x0D then [CHR 0x5C, CHR ''r'']
      else if c = CHR 0x09 then [CHR 0x5C, CHR ''t'']
      else if c = CHR 0x08 then [CHR 0x5C, CHR ''b'']
      else if c = CHR 0x0C then [CHR 0x5C, CHR ''f'']
      else if 0x20 \<le> (of_char c :: nat) \<and> (of_char c :: nat) \<le> 0x7E then [c]
      else [CHR 0x5C, CHR ''u'', CHR ''0'', CHR ''0'',
            hex_digit (of_char c div 16), hex_digit (of_char c mod 16)])"

definition json_str :: "string \<Rightarrow> string" where
  "json_str s = CHR 0x22 # concat (map json_escape s) @ [CHR 0x22]"

fun json_val :: "val \<Rightarrow> string" where
  "json_val VNone = ''null''"
| "json_val (VInt i) = str_int i"
| "json_val (VStr s) = json_str s"

fun join :: "string \<Rightarrow> string list \<Rightarrow> string" where
  "join sep [] = []"
| "join sep [x] = x"
| "join sep (x # y # ys) = x @ sep @ join sep (y # ys)"

definition json_dumps :: "(string \<times> val) list \<Rightarrow> string" where
  "json_dumps d =
     ''{'' @ join '', '' (map (\<lambda>kv. json_str (fst kv) @ '': '' @ json_val (snd kv)) d) @ ''}''"

section \<open>hashlib.md5\<close>

text \<open>
  MD5 as RFC 1321 defines it: the message is padded to a multiple of 64 bytes, and each
  block of sixteen little-endian 32-bit words goes through 64 steps. \<open>hexdigest\<close>
  writes the four state words as 32 lowercase hexadecimal digits.
\<close>

type_synonym md5_state = "32 word \<times> 32 word \<times> 32 word \<times> 32 word"

definition md5_K :: "32 word list" where
  "md5_K =
    [0xd76aa478, 0xe8c7b756, 0x242070db, 0xc1bdceee, 0xf57c0faf, 0x4787c62a, 0xa8304613, 0xfd469501,
     0x698098d8, 0x8b44f7af, 0xffff5bb1, 0x895cd7be, 0x6b901122, 0xfd987193, 0xa679438e, 0x49b40821,
     0xf61e2562, 0xc040b340, 0x265e5a51, 0xe9b6c7aa, 0xd62f105d, 0x02441453, 0xd8a1e681, 0xe7d3fbc8,
     0x21e1cde6, 0xc33707d6, 0xf4d50d87, 0x455a14ed, 0xa9e3e905, 0xfcefa3f8, 0x676f02d9, 0x8d2a4c8a,
     0xfffa3942, 0x8771f681, 0x6d9d6122, 0xfde5380c, 0xa4beea44, 0x4bdecfa9, 0xf6bb4b60, 0xbebfbc70,
     0x289b7ec6, 0xeaa127fa, 0xd4ef3085, 0x04881d05, 0xd9d4d039, 0xe6db99e5, 0x1fa27cf8, 0xc4ac5665,
     0xf4292244, 0x432aff97, 0xab9423a7, 0xfc93a039, 0x655b59c3, 0x8f0ccc92, 0xffeff47d, 0x85845dd1,
     0x6fa87e4f, 0xfe2ce6e0, 0xa3014314, 0x4e0811a1, 0xf7537e82, 0xbd3af235, 0x2ad7d2bb, 0xeb86d391]"

definition md5_s :: "nat list" where
  "md5_s =
    [7, 12, 17, 22, 7, 12, 17, 22, 7, 12, 17, 22, 7, 12, 17, 22,
     5, 9, 14, 20, 5, 9, 14, 20, 5, 9, 14, 20, 5, 9, 14, 20,
     4, 11, 16, 23, 4, 11, 16, 23, 4, 11, 16, 23, 4, 11, 16, 23,
     6, 10, 15, 21, 6, 10, 15, 21, 6, 10, 15, 21, 6, 10, 15, 21]"

definition leftrotate :: "32 word \<Rightarrow> nat \<Rightarrow> 32 word" where
  "leftrotate x c = push_bit c x OR drop_bit (32 - c) x"

definition md5_F :: "nat \<Rightarrow> 32 word \<Rightarrow> 32 word \<Rightarrow> 32 word \<Rightarrow> 32 word" where
  "md5_F i B C D =
     (if i < 16 then (B AND C) OR (NOT B AND D)
      else if i < 32 then (D AND B) OR (NOT D AND C)
      else if i < 48 then B XOR C XOR D
      else C XOR (B OR NOT D))"

definition md5_g :: "nat \<Rightarrow> nat" where
  "md5_g i =
     (if i < 16 then i
      else if i < 32 then (5 * i + 1) mod 16
      else if i < 48 then (3 * i + 5) mod 16
      else (7 * i) mod 16)"

definition md5_step :: "32 word list \<Rightarrow> md5_state \<Rightarrow> nat \<Rightarrow> md5_state" where
  "md5_step M st i =
     (case st of (A, B, C, D) \<Rightarrow>
        (D, B + leftrotate (md5_F i B C D + A + md5_K ! i + M ! md5_g i) (md5_s ! i), B, C))"

definition le_word :: "8 word list \<Rightarrow> 32 word" where
  "le_word bs = foldr (\<lambda>b w. ucast b OR push_bit 8 w) bs 0"

definition block_words :: "8 word list \<Rightarrow> 32 word list" where
  "block_words block = map (\<lambda>j. le_word (take 4 (drop (4 * j) block))) [0..<16]"

definition md5_block :: "md5_state \<Rightarrow> 8 word list \<Rightarrow> md5_state" where
  "md5_block st block =
     (case st of (a0, b0, c0, d0) \<Rightarrow>
        (case foldl (md5_step (block_words block)) st [0..<64] of
           (A, B, C, D) \<Rightarrow> (a0 + A, b0 + B, c0 + C, d0 + D)))"

definition le_bytes :: "nat \<Rightarrow> 'a::len word \<Rightarrow> 8 word list" where
  "le_bytes k w = map (\<lambda>j. ucast (drop_bit (8 * j) w)) [0..<k]"

definition md5_pad :: "8 word list \<Rightarrow> 8 word list" where
  "md5_pad msg =
     msg @ [0x80] @ replicate ((119 - length msg mod 64) mod 64) 0
       @ le_bytes 8 (8 * word_of_nat (length msg) :: 64 word)"

definition md5_blocks :: "8 word list \<Rightarrow> 8 word list list" where
  "md5_blocks padded = map (\<lambda>j. take 64 (drop (64 * j) padded)) [0..<length padded div 64]"

definition md5 :: "8 word list \<Rightarrow> md5_state" where
  "md5 msg =
     foldl md5_block (0x67452301, 0xefcdab89, 0x98badcfe, 0x10325476) (md5_blocks (md5_pad msg))"

definition hex_byte :: "8 word \<Rightarrow> string" where
  "hex_byte b = [hex_digit (unat (drop_bit 4 b)), hex_digit (unat (b AND 15))]"

definition hexdigest :: "md5_state \<Rightarrow> string" where
  "hexdigest st =
     (case st of (a, b, c, d) \<Rightarrow>
        concat (map hex_byte (le_bytes 4 a @ le_bytes 4 b @ le_bytes 4 c @ le_bytes 4 d)))"

text \<open>
  The key under which \<open>node_registry\<close> files a feature combination (lines 109 and
  214-215): \<open>hashlib.md5(json.dumps(d).encode("utf-8")).hexdigest()\<close>. The JSON text is
  ASCII, so its UTF-8 encoding is the bytes of its characters.
\<close>

definition registry_key :: "(string \<times> val) list \<Rightarrow> string" where
  "registry_key d = hexdigest (md5 (map of_char (json_dumps d)))"

section \<open>build_tree\<close>

text \<open>
  A row of the grouped and aggregated dataframe (lines 127-150): the values of the
  grouping columns, in the order of \<open>features_to_current_depth\<close>, and the aggregates.
  \<open>sub_hit_counts\<close> holds the eight sums whose column names are redacted in the source.
  \<open>applicant_hit_count\<close> is never read and is left out.
\<close>

record agg_row =
  group_values :: "val list"
  applicant_hit_percentage :: rat
  row_refusal_percentage :: rat
  group_size :: int
  sub_hit_counts :: "(string \<times> int) list"

text \<open>
  The dataframe \<open>df\<close> as \<open>build_tree\<close> uses it: \<open>df.count()\<close>, and for a list of
  grouping columns the rows of \<open>df.groupBy(...).agg(...)\<close>, which Spark returns in no
  particular order.
\<close>

record dataframe =
  df_count :: int
  df_group_by :: "string list \<Rightarrow> agg_row list"

record parameter_set =
  features_ordered :: "string list"
  chance_max_hit_percentage_threshold :: rat
  chance_max_refusal_percentage_threshold :: rat
  risk_min_hit_percentage_threshold :: rat
  minimal_groupsize :: int

text \<open>
  Spark's ascending order on the values of a column: nulls first, integers by value,
  strings by their bytes.
\<close>

fun val_order :: "val \<Rightarrow> nat \<times> int \<times> string" where
  "val_order VNone = (0, 0, [])"
| "val_order (VInt i) = (1, i, [])"
| "val_order (VStr s) = (2, 0, s)"

text \<open>
  The collected rows of one layer (lines 152-177): the groups of at least
  \<open>minimal_groupsize\<close> rows, each with its \<open>profile_type\<close>, sorted ascending by the
  grouping columns.
\<close>

definition collect_layer ::
  "dataframe \<Rightarrow> parameter_set \<Rightarrow> string list \<Rightarrow> (agg_row \<times> string) list" where
  "collect_layer df ps features_to_current_depth =
     sort_key (\<lambda>r. map val_order (group_values (fst r)))
       (map (\<lambda>r. (r, classify (applicant_hit_percentage r) (row_refusal_percentage r)
                        (chance_max_hit_percentage_threshold ps)
                        (chance_max_refusal_percentage_threshold ps)
                        (risk_min_hit_percentage_threshold ps)))
          (filter (\<lambda>r. minimal_groupsize ps \<le> group_size r)
             (df_group_by df features_to_current_depth)))"

text \<open>\<open>row[feature]\<close>: the value of the first field of that name; ValueError without one.\<close>

definition row_field :: "string list \<Rightarrow> agg_row \<Rightarrow> string \<Rightarrow> val option" where
  "row_field features row feature = map_of (zip features (group_values row)) feature"

text \<open>\<open>{ feature: row[feature] for feature in features_to_current_depth }\<close> (line 208)\<close>

fun combination_values ::
  "string list \<Rightarrow> agg_row \<Rightarrow> string list \<Rightarrow> (string \<times> val) list
     \<Rightarrow> error + (string \<times> val) list" where
  "combination_values features row [] d = Inr d"
| "combination_values features row (f # fs) d =
     (case row_field features row f of
        None \<Rightarrow> Inl ValueError
      | Some v \<Rightarrow> combination_values features row fs (AList.update f v d))"

text \<open>
  The node's \<open>key\<close>: an integer is converted with \<open>str\<close> (lines 198-199); \<open>None\<close> has
  no \<open>encode\<close> when the label is made (line 236).
\<close>

fun feature_value_str :: "val \<Rightarrow> string option" where
  "feature_value_str VNone = None"
| "feature_value_str (VInt i) = Some (str_int i)"
| "feature_value_str (VStr s) = Some s"

text \<open>
  \<open>tree.add_node\<close> appends a new node or replaces the attributes of an old one;
  \<open>tree.add_edge\<close> appends the edge unless it is there. (networkx would also create a
  missing end point; \<open>build_tree\<close> adds edges between nodes it has created.)
\<close>

definition add_node :: "digraph \<Rightarrow> node \<Rightarrow> node_attrs \<Rightarrow> digraph" where
  "add_node G n a =
     (if has_node G n
      then G\<lparr>nodes := map (\<lambda>p. if fst p = n then (n, a) else p) (nodes G)\<rparr>
      else G\<lparr>nodes := nodes G @ [(n, a)]\<rparr>)"

definition add_edge :: "digraph \<Rightarrow> node \<Rightarrow> node \<Rightarrow> digraph" where
  "add_edge G u v = (if (u, v) \<in> set (edges G) then G else G\<lparr>edges := edges G @ [(u, v)]\<rparr>)"

text \<open>The variables of \<open>build_tree\<close> that change while the tree grows.\<close>

record build_state =
  tree :: digraph
  node_registry :: "string \<Rightarrow> int option"
  current_node_number :: int

text \<open>The state before the first layer (lines 86-110): the root node and its registry key.\<close>

definition initial_state :: "dataframe \<Rightarrow> build_state" where
  "initial_state df =
     \<lparr>tree = add_node \<lparr>nodes = [], edges = []\<rparr> 0
               \<lparr>depth = 0, key = ''Alle aanvragen'', profile_type = ''inbetween'',
                total_count = df_count df, hit_percentage = None,
                refusal_percentage = None, hit_counts = None\<rparr>,
      node_registry = Map.empty(registry_key [] \<mapsto> 0),
      current_node_number = 0\<rparr>"

text \<open>
  The body of the loop over the collected rows (lines 190-281) for one row. The
  registry lookup of the parent's key raises KeyError when the key is not there.
\<close>

definition add_combination ::
  "string list \<Rightarrow> string \<Rightarrow> int \<Rightarrow> build_state \<Rightarrow> agg_row \<times> string \<Rightarrow> error + build_state" where
  "add_combination features_to_current_depth current_feature current_depth st
      current_feature_combination =
     (case row_field features_to_current_depth (fst current_feature_combination) current_feature of
        None \<Rightarrow> Inl ValueError
      | Some current_feature_value \<Rightarrow>
          (case combination_values features_to_current_depth (fst current_feature_combination)
                  features_to_current_depth [] of
             Inl e \<Rightarrow> Inl e
           | Inr current_feature_combination_values \<Rightarrow>
               (case node_registry st
                       (registry_key
                          (filter (\<lambda>kv. fst kv \<noteq> current_feature)
                             current_feature_combination_values)) of
                  None \<Rightarrow> Inl KeyError
                | Some parent_node_number \<Rightarrow>
                    (case feature_value_str current_feature_value of
                       None \<Rightarrow> Inl AttributeError
                     | Some k \<Rightarrow>
                         Inr \<lparr>tree =
                                add_edge
                                  (add_node (tree st) (current_node_number st + 1)
                                     \<lparr>depth = current_depth, key = k,
                                      profile_type = snd current_feature_combination,
                                      total_count = group_size (fst current_feature_combination),
                                      hit_percentage =
                                        Some (applicant_hit_percentage
                                                (fst current_feature_combination) * 100),
                                      refusal_percentage =
                                        Some (row_refusal_percentage
                                                (fst current_feature_combination) * 100),
                                      hit_counts =
                                        Some (sub_hit_counts (fst current_feature_combination))\<rparr>)
                                  parent_node_number (current_node_number st + 1),
                              node_registry =
                                (node_registry st)
                                  (registry_key current_feature_combination_values \<mapsto>
                                     current_node_number st + 1),
                              current_node_number = current_node_number st + 1\<rparr>))))"

text \<open>\<open>for current_feature_combination in df_feature_combinations\<close>\<close>

fun add_combinations ::
  "string list \<Rightarrow> string \<Rightarrow> int \<Rightarrow> build_state \<Rightarrow> (agg_row \<times> string) list
     \<Rightarrow> error + build_state" where
  "add_combinations fs f d st [] = Inr st"
| "add_combinations fs f d st (row # rows) =
     (case add_combination fs f d st row of
        Inl e \<Rightarrow> Inl e
      | Inr st' \<Rightarrow> add_combinations fs f d st' rows)"

text \<open>
  \<open>for index, current_feature in enumerate(features_ordered)\<close> (lines 113-285), from
  position \<open>index\<close> on; \<open>current_depth = index + 1\<close>.
\<close>

fun build_layers ::
  "dataframe \<Rightarrow> parameter_set \<Rightarrow> nat \<Rightarrow> string list \<Rightarrow> build_state \<Rightarrow> error + build_state" where
  "build_layers df ps index [] st = Inr st"
| "build_layers df ps index (current_feature # rest) st =
     (case add_combinations (take (Suc index) (features_ordered ps)) current_feature
             (int (Suc index)) st
             (collect_layer df ps (take (Suc index) (features_ordered ps))) of
        Inl e \<Rightarrow> Inl e
      | Inr st' \<Rightarrow> build_layers df ps (Suc index) rest st')"

text \<open>\<open>build_tree\<close> returns the tree and the parameter set it was called with.\<close>

definition build_tree :: "dataframe \<Rightarrow> parameter_set \<Rightarrow> error + digraph \<times> parameter_set" where
  "build_tree df ps =
     (case build_layers df ps 0 (features_ordered ps) (initial_state df) of
        Inl e \<Rightarrow> Inl e
      | Inr st \<Rightarrow> Inr (tree st, ps))"

section \<open>Trees\<close>

text \<open>
  The tree of the data model, rooted at \<open>r\<close>: node ids are unique, the root has depth
  0, no depth is negative, every node but the root has exactly one incoming edge, and
  an edge joins two nodes of the tree, the child one level below its parent.
\<close>

definition tree_inv :: "digraph \<Rightarrow> node \<Rightarrow> bool" where
  "tree_inv G r \<longleftrightarrow>
     distinct (node_ids G) \<and> has_node G r
     \<and> map_option depth (node_attr G r) = Some 0
     \<and> list_all (\<lambda>p. 0 \<le> depth (snd p)) (nodes G)
     \<and> list_all (\<lambda>n. n = r \<or> in_degree G n = 1) (node_ids G)
     \<and> list_all (\<lambda>e. has_node G (fst e) \<and> has_node G (snd e)
                     \<and> map_option depth (node_attr G (snd e))
                         = map_option (\<lambda>a. depth a + 1) (node_attr G (fst e))) (edges G)"


text \<open>
  A path of the tree: distinct nodes of the tree, each joined to the next by an edge.
\<close>

definition tree_path :: "digraph \<Rightarrow> node list \<Rightarrow> bool" where
  "tree_path G p \<longleftrightarrow>
     p \<noteq> [] \<and> distinct p \<and> set p \<subseteq> set (node_ids G)
     \<and> (\<forall>i. Suc i < length p \<longrightarrow> (p ! i, p ! Suc i) \<in> set (edges G))"



section \<open>Example trees\<close>

text \<open>A node with its statistics, as \<open>build_tree\<close> stores it.\<close>

definition tree_node :: "int \<Rightarrow> string \<Rightarrow> string \<Rightarrow> node_attrs" where
  "tree_node d k t =
     \<lparr>depth = d, key = k, profile_type = t, total_count = 60, hit_percentage = Some 50,
      refusal_percentage = Some 5, hit_counts = Some []\<rparr>"

definition root_node :: node_attrs where
  "root_node =
     \<lparr>depth = 0, key = ''Alle aanvragen'', profile_type = ''inbetween'', total_count = 160,
      hit_percentage = None, refusal_percentage = None, hit_counts = None\<rparr>"

text \<open>The root, a child of type risk, and two grandchildren of type risk.\<close>

definition risk_family :: digraph where
  "risk_family =
     \<lparr>nodes = [(0, root_node), (1, tree_node 1 ''A'' ''risk''),
               (2, tree_node 2 ''old'' ''risk''), (3, tree_node 2 ''young'' ''risk'')],
      edges = [(0, 1), (1, 2), (1, 3)]\<rparr>"

definition risk_parent :: digraph where
  "risk_parent =
     \<lparr>nodes = [(0, root_node), (1, tree_node 1 ''A'' ''risk'')], edges = [(0, 1)]\<rparr>"



text \<open>The root with one leaf of type inbetween, and with one leaf of type chance.\<close>

definition inbetween_child :: digraph where
  "inbetween_child =
     \<lparr>nodes = [(0, root_node), (1, tree_node 1 ''A'' ''inbetween'')], edges = [(0, 1)]\<rparr>"

definition chance_child :: digraph where
  "chance_child =
     \<lparr>nodes = [(0, root_node), (1, tree_node 1 ''A'' ''chance'')], edges = [(0, 1)]\<rparr>"

text \<open>A leaf at depth 1 beside a leaf at depth 2, and the same tree without the former.\<close>

definition mixed_depths :: digraph where
  "mixed_depths =
     \<lparr>nodes = [(0, root_node), (1, tree_node 1 ''A'' ''inbetween''),
               (2, tree_node 1 ''B'' ''risk''), (3, tree_node 2 ''old'' ''risk'')],
      edges = [(0, 1), (0, 2), (1, 3)]\<rparr>"

definition deep_branch :: digraph where
  "deep_branch =
     \<lparr>nodes = [(0, root_node), (1, tree_node 1 ''A'' ''inbetween''),
               (3, tree_node 2 ''old'' ''risk'')],
      edges = [(0, 1), (1, 3)]\<rparr>"

section \<open>Example dataframes\<close>

text \<open>
  The scenario of the specification: features country and age band, thresholds 5, 10
  and 40, minimal group size 50. \<open>scenario_df_reordered\<close> returns the same groups in
  another order. \<open>inconsistent_df\<close> reports ten rows for country B and sixty for
  country B with age band old.
\<close>

definition group_row :: "val list \<Rightarrow> rat \<Rightarrow> rat \<Rightarrow> int \<Rightarrow> agg_row" where
  "group_row vs h r n =
     \<lparr>group_values = vs, applicant_hit_percentage = h, row_refusal_percentage = r,
      group_size = n, sub_hit_counts = []\<rparr>"

definition scenario_parameters :: parameter_set where
  "scenario_parameters =
     \<lparr>features_ordered = [''country'', ''age_band''],
      chance_max_hit_percentage_threshold = 5,
      chance_max_refusal_percentage_threshold = 10,
      risk_min_hit_percentage_threshold = 40,
      minimal_groupsize = 50\<rparr>"

definition scenario_df :: dataframe where
  "scenario_df =
     \<lparr>df_count = 160,
      df_group_by = (\<lambda>fs.
        if fs = [''country''] then [group_row [VStr ''A''] (1 / 5) (1 / 20) 160]
        else if fs = [''country'', ''age_band'']
        then [group_row [VStr ''A'', VStr ''young''] (1 / 50) (1 / 20) 100,
              group_row [VStr ''A'', VStr ''old''] (1 / 2) (1 / 20) 60]
        else [])\<rparr>"

definition scenario_df_reordered :: dataframe where
  "scenario_df_reordered =
     \<lparr>df_count = 160,
      df_group_by = (\<lambda>fs.
        if fs = [''country''] then [group_row [VStr ''A''] (1 / 5) (1 / 20) 160]
        else if fs = [''country'', ''age_band'']
        then [group_row [VStr ''A'', VStr ''old''] (1 / 2) (1 / 20) 60,
              group_row [VStr ''A'', VStr ''young''] (1 / 50) (1 / 20) 100]
        else [])\<rparr>"


section \<open>Properties of prune_tree\<close>

lemmas graph_defs =
  node_ids_def has_node_def node_attr_def successors_def predecessors_def out_degree_def
  in_degree_def remove_node_def leaves_def leaves_of_type_inbetween_def py_set_def
  prune_parent_def prune_pass_def tree_node_def root_node_def

lemma remove_node_length:
  "remove_node G n = Inr G' \<Longrightarrow> length (nodes G') < length (nodes G)"
proof -
  assume a: "remove_node G n = Inr G'"
  then have h: "has_node G n" and g: "nodes G' = filter (\<lambda>p. fst p \<noteq> n) (nodes G)"
    by (auto simp: remove_node_def split: if_splits)
  from h obtain p where "p \<in> set (nodes G)" "fst p = n"
    by (auto simp: has_node_def node_ids_def)
  then have "length (filter (\<lambda>p. fst p \<noteq> n) (nodes G)) < length (nodes G)"
    by (intro length_filter_less[of p]) auto
  with g show ?thesis by simp
qed

lemma remove_nodes_length:
  "remove_nodes G cs = Inr G' \<Longrightarrow>
     (cs = [] \<and> G' = G) \<or> (cs \<noteq> [] \<and> length (nodes G') < length (nodes G))"
proof (induction cs arbitrary: G)
  case Nil
  then show ?case by simp
next
  case (Cons c cs)
  then obtain G1 where r: "remove_node G c = Inr G1" and rs: "remove_nodes G1 cs = Inr G'"
    by (auto split: sum.splits)
  from Cons.IH[OF rs] remove_node_length[OF r] show ?case by auto
qed

lemma prune_parent_cases:
  assumes "prune_parent m s p = Inr s'"
  shows "s' = s \<or> (\<not> snd s' \<and> length (nodes (fst s')) < length (nodes (fst s)))"
proof -
  { fix cs G'
    assume "set (map (out_degree (fst s)) cs) = {0}" "remove_nodes (fst s) cs = Inr G'"
    then have "cs \<noteq> []" by auto
    with remove_nodes_length[OF \<open>remove_nodes (fst s) cs = Inr G'\<close>]
    have "length (nodes G') < length (nodes (fst s))" by simp }
  with assms show ?thesis
    by (auto simp: prune_parent_def Let_def split: option.splits if_splits sum.splits)
qed

lemma prune_parents_cases:
  "prune_parents m ps s = Inr s' \<Longrightarrow>
     s' = s \<or> (\<not> snd s' \<and> length (nodes (fst s')) < length (nodes (fst s)))"
proof (induction ps arbitrary: s)
  case Nil
  then show ?case by simp
next
  case (Cons p ps)
  then obtain s1 where a: "prune_parent m s p = Inr s1" and b: "prune_parents m ps s1 = Inr s'"
    by (auto split: sum.splits)
  from prune_parent_cases[OF a] Cons.IH[OF b] show ?case by auto
qed

lemma prune_pass_cases:
  assumes "prune_pass m G = Inr r"
  shows "(snd r \<and> fst r = G) \<or> (\<not> snd r \<and> length (nodes (fst r)) < length (nodes G))"
proof -
  let ?inb = "leaves_of_type_inbetween G"
  from assms obtain G1 ps where r1: "remove_nodes G ?inb = Inr G1"
    and pp: "prune_parents m (py_set ps) (G1, ?inb = []) = Inr r"
    by (auto simp: prune_pass_def Let_def split: sum.splits)
  from prune_parents_cases[OF pp] remove_nodes_length[OF r1] show ?thesis
    by (cases r) auto
qed

lemma prune_tree_returns: "\<exists>r. prune_tree G m = Some r"
proof (induction G rule: measure_induct_rule[where f = "\<lambda>G. length (nodes G)"])
  case (less G)
  show ?case
  proof (cases "prune_pass m G")
    case (Inl e)
    then show ?thesis by (subst prune_tree.simps) simp
  next
    case (Inr r)
    show ?thesis
    proof (cases "snd r")
      case True
      with Inr show ?thesis by (subst prune_tree.simps) simp
    next
      case False
      with prune_pass_cases[OF Inr] have "length (nodes (fst r)) < length (nodes G)" by simp
      from less[OF this] Inr False show ?thesis by (subst prune_tree.simps) simp
    qed
  qed
qed

lemma prune_tree_fixed_point: "prune_tree G m = Some (Inr G') \<Longrightarrow> prune_tree G' m = Some (Inr G')"
proof (induction G rule: measure_induct_rule[where f = "\<lambda>G. length (nodes G)"])
  case (less G)
  from less.prems obtain r where Inr: "prune_pass m G = Inr r"
    by (subst (asm) prune_tree.simps) (auto split: sum.splits)
  show ?case
  proof (cases "snd r")
    case True
    with prune_pass_cases[OF Inr] have eq: "fst r = G" by simp
    from less.prems Inr True have "G' = fst r"
      by (subst (asm) prune_tree.simps) simp
    with eq have "G' = G" by simp
    with less.prems show ?thesis by simp
  next
    case False
    with prune_pass_cases[OF Inr] have lt: "length (nodes (fst r)) < length (nodes G)" by simp
    from less.prems Inr False have "prune_tree (fst r) m = Some (Inr G')"
      by (subst (asm) prune_tree.simps) simp
    from less.IH[OF lt this] show ?thesis .
  qed
qed


lemma risk_family_pass: "prune_pass 1 risk_family = Inr (risk_parent, False)"
  by (simp add: risk_family_def risk_parent_def graph_defs)

lemma risk_parent_pass: "prune_pass 1 risk_parent = Inr (risk_parent, True)"
  by (simp add: risk_parent_def graph_defs)

lemma risk_family_pruned: "prune_tree risk_family 1 = Some (Inr risk_parent)"
  by (subst prune_tree.simps, simp add: risk_family_pass, subst prune_tree.simps)
     (simp add: risk_parent_pass)

text \<open>
  C9. The pruning loop ends on every tree: \<open>prune_tree\<close> has a result (a tree or an
  exception), and every run of the loop body that asks for another run
  (\<open>last_run_clear\<close> is False at its end) leaves strictly fewer nodes than it found.
\<close>

theorem prune_tree_terminates:
  "(\<exists>r. prune_tree t m = Some r)
   \<and> (\<forall>t'. prune_pass m t = Inr (t', False) \<longrightarrow> length (nodes t') < length (nodes t))"
proof
  show "\<exists>r. prune_tree t m = Some r" by (rule prune_tree_returns)
next
  show "\<forall>t'. prune_pass m t = Inr (t', False) \<longrightarrow> length (nodes t') < length (nodes t)"
  proof (intro allI impI)
    fix t'
    assume "prune_pass m t = Inr (t', False)"
    from prune_pass_cases[OF this] show "length (nodes t') < length (nodes t)" by simp
  qed
qed

theorem prune_tree_terminates_witness:
  "prune_pass 1 risk_family = Inr (risk_parent, False)
   \<and> length (nodes risk_parent) < length (nodes risk_family)
   \<and> (\<exists>r. prune_tree risk_family 1 = Some r)"
  using prune_tree_terminates[of risk_family 1] risk_family_pass by blast

text \<open>
  C4. Pruning is idempotent: when \<open>prune_tree\<close> returns a tree, pruning that tree again
  returns it unchanged.
\<close>

theorem prune_tree_idempotent:
  "prune_tree t m = Some (Inr t') \<Longrightarrow> prune_tree t' m = Some (Inr t')"
  by (rule prune_tree_fixed_point)

theorem prune_tree_idempotent_witness:
  "prune_tree risk_family 1 = Some (Inr risk_parent)
   \<and> prune_tree risk_parent 1 = Some (Inr risk_parent)"
  using prune_tree_idempotent[of risk_family 1 risk_parent] risk_family_pruned by simp

section \<open>Properties of the classification rule\<close>


section \<open>Properties of filter_leaves_under_minimum_depth\<close>

lemma remove_node_shape:
  assumes "remove_node H n = Inr H'"
  shows "has_node H n" "nodes H' = filter (\<lambda>p. fst p \<noteq> n) (nodes H)"
    "edges H' = filter (\<lambda>e. fst e \<noteq> n \<and> snd e \<noteq> n) (edges H)"
  using assms by (auto simp: remove_node_def split: if_splits)

lemma remove_if_childless_inv:
  assumes inv: "nodes H = filter (\<lambda>p. fst p \<notin> R) (nodes G)"
      "edges H = filter (\<lambda>e. fst e \<notin> R \<and> snd e \<notin> R) (edges G)"
      "\<forall>e \<in> set (edges G). fst e \<in> R \<longrightarrow> snd e \<in> R"
    and step: "remove_if_childless H n = Inr H'"
  shows "\<exists>R'. R \<subseteq> R' \<and> R' \<subseteq> insert n R
      \<and> nodes H' = filter (\<lambda>p. fst p \<notin> R') (nodes G)
      \<and> edges H' = filter (\<lambda>e. fst e \<notin> R' \<and> snd e \<notin> R') (edges G)
      \<and> (\<forall>e \<in> set (edges G). fst e \<in> R' \<longrightarrow> snd e \<in> R')"
proof (cases "out_degree H n = 0")
  case False
  with step have "H' = H" by (auto simp: remove_if_childless_def split: if_splits)
  with inv show ?thesis by (intro exI[of _ R]) auto
next
  case True
  with step have rm: "remove_node H n = Inr H'"
    by (auto simp: remove_if_childless_def split: if_splits)
  note sh = remove_node_shape[OF rm]
  from sh(1) inv(1) have nR: "n \<notin> R" by (auto simp: has_node_def node_ids_def)
  from True have noedge: "\<forall>e \<in> set (edges H). fst e \<noteq> n"
    by (auto simp: out_degree_def successors_def filter_empty_conv)
  have clo: "\<forall>e \<in> set (edges G). fst e \<in> insert n R \<longrightarrow> snd e \<in> insert n R"
  proof (intro ballI impI)
    fix e assume e: "e \<in> set (edges G)" and f: "fst e \<in> insert n R"
    show "snd e \<in> insert n R"
    proof (cases "fst e = n")
      case True
      with noedge have "e \<notin> set (edges H)" by auto
      with e inv(2) True nR have "snd e \<in> R" by auto
      then show ?thesis by simp
    next
      case False
      with f inv(3) e show ?thesis by auto
    qed
  qed
  have n1: "nodes H' = filter (\<lambda>p. fst p \<notin> insert n R) (nodes G)"
    using sh(2) inv(1) by (auto intro: filter_cong)
  have e1: "edges H' = filter (\<lambda>e. fst e \<notin> insert n R \<and> snd e \<notin> insert n R) (edges G)"
    using sh(3) inv(2) by (auto intro: filter_cong)
  from n1 e1 clo show ?thesis by (intro exI[of _ "insert n R"]) auto
qed

lemma remove_childless_inv:
  assumes "nodes H = filter (\<lambda>p. fst p \<notin> R) (nodes G)"
      "edges H = filter (\<lambda>e. fst e \<notin> R \<and> snd e \<notin> R) (edges G)"
      "\<forall>e \<in> set (edges G). fst e \<in> R \<longrightarrow> snd e \<in> R"
    and "remove_childless H ns = Inr H'"
  shows "\<exists>R'. R \<subseteq> R' \<and> R' \<subseteq> set ns \<union> R
      \<and> nodes H' = filter (\<lambda>p. fst p \<notin> R') (nodes G)
      \<and> edges H' = filter (\<lambda>e. fst e \<notin> R' \<and> snd e \<notin> R') (edges G)
      \<and> (\<forall>e \<in> set (edges G). fst e \<in> R' \<longrightarrow> snd e \<in> R')"
  using assms
proof (induction ns arbitrary: H R)
  case Nil
  then show ?case by (intro exI[of _ R]) auto
next
  case (Cons n ns)
  from Cons.prems(4) obtain H1 where s1: "remove_if_childless H n = Inr H1"
    and s2: "remove_childless H1 ns = Inr H'"
    by (auto split: sum.splits)
  from remove_if_childless_inv[OF Cons.prems(1-3) s1] obtain R1 where
    r1: "R \<subseteq> R1" "R1 \<subseteq> insert n R" "nodes H1 = filter (\<lambda>p. fst p \<notin> R1) (nodes G)"
      "edges H1 = filter (\<lambda>e. fst e \<notin> R1 \<and> snd e \<notin> R1) (edges G)"
      "\<forall>e \<in> set (edges G). fst e \<in> R1 \<longrightarrow> snd e \<in> R1"
    by blast
  from Cons.IH[OF r1(3-5) s2] obtain R' where
    r2: "R1 \<subseteq> R'" "R' \<subseteq> set ns \<union> R1" "nodes H' = filter (\<lambda>p. fst p \<notin> R') (nodes G)"
      "edges H' = filter (\<lambda>e. fst e \<notin> R' \<and> snd e \<notin> R') (edges G)"
      "\<forall>e \<in> set (edges G). fst e \<in> R' \<longrightarrow> snd e \<in> R'"
    by blast
  from r1(1,2) r2(1,2) have "R \<subseteq> R'" "R' \<subseteq> set (n # ns) \<union> R" by auto
  with r2(3-5) show ?case by blast
qed

lemma filter_paths_inv:
  assumes "nodes H = filter (\<lambda>p. fst p \<notin> R) (nodes G)"
      "edges H = filter (\<lambda>e. fst e \<notin> R \<and> snd e \<notin> R) (edges G)"
      "\<forall>e \<in> set (edges G). fst e \<in> R \<longrightarrow> snd e \<in> R"
    and "filter_paths m H paths = Inr H'"
  shows "\<exists>R'. R \<subseteq> R' \<and> R' \<subseteq> \<Union> (set ` set paths) \<union> R
      \<and> nodes H' = filter (\<lambda>p. fst p \<notin> R') (nodes G)
      \<and> edges H' = filter (\<lambda>e. fst e \<notin> R' \<and> snd e \<notin> R') (edges G)
      \<and> (\<forall>e \<in> set (edges G). fst e \<in> R' \<longrightarrow> snd e \<in> R')"
  using assms
proof (induction paths arbitrary: H R)
  case Nil
  then show ?case by (intro exI[of _ R]) auto
next
  case (Cons path paths)
  show ?case
  proof (cases "int (length path) > m")
    case True
    with Cons.prems(4) have "filter_paths m H paths = Inr H'" by simp
    from Cons.IH[OF Cons.prems(1-3) this] show ?thesis by auto
  next
    case False
    with Cons.prems(4) obtain H1 where s1: "remove_childless H (rev path) = Inr H1"
      and s2: "filter_paths m H1 paths = Inr H'"
      by (auto split: sum.splits)
    from remove_childless_inv[OF Cons.prems(1-3) s1] obtain R1 where
      r1: "R \<subseteq> R1" "R1 \<subseteq> set (rev path) \<union> R" "nodes H1 = filter (\<lambda>p. fst p \<notin> R1) (nodes G)"
        "edges H1 = filter (\<lambda>e. fst e \<notin> R1 \<and> snd e \<notin> R1) (edges G)"
        "\<forall>e \<in> set (edges G). fst e \<in> R1 \<longrightarrow> snd e \<in> R1"
      by blast
    from Cons.IH[OF r1(3-5) s2] obtain R' where
      r2: "R1 \<subseteq> R'" "R' \<subseteq> \<Union> (set ` set paths) \<union> R1" "nodes H' = filter (\<lambda>p. fst p \<notin> R') (nodes G)"
        "edges H' = filter (\<lambda>e. fst e \<notin> R' \<and> snd e \<notin> R') (edges G)"
        "\<forall>e \<in> set (edges G). fst e \<in> R' \<longrightarrow> snd e \<in> R'"
      by blast
    from r1(1,2) r2(1,2) have "R \<subseteq> R'" "R' \<subseteq> \<Union> (set ` set (path # paths)) \<union> R" by auto
    with r2(3-5) show ?thesis by blast
  qed
qed

lemma filter_leaves_shape:
  assumes "filter_leaves_under_minimum_depth G m r = Inr G'"
  shows "\<exists>R. nodes G' = filter (\<lambda>p. fst p \<notin> R) (nodes G)
      \<and> edges G' = filter (\<lambda>e. fst e \<notin> R \<and> snd e \<notin> R) (edges G)
      \<and> (\<forall>e \<in> set (edges G). fst e \<in> R \<longrightarrow> snd e \<in> R)"
proof -
  from assms obtain paths where "filter_paths m G paths = Inr G'"
    by (auto simp: filter_leaves_under_minimum_depth_def split: sum.splits)
  from filter_paths_inv[of G "{}" G m paths G', OF _ _ _ this] show ?thesis by auto
qed

lemma filter_keeps_parents:
  assumes "filter_leaves_under_minimum_depth G m r = Inr G'"
    and "has_node G u" "(u, v) \<in> set (edges G)" "has_node G' v"
  shows "has_node G' u \<and> (u, v) \<in> set (edges G')
     \<and> node_attr G' u = node_attr G u"
proof -
  from filter_leaves_shape[OF assms(1)] obtain R where
    R: "nodes G' = filter (\<lambda>p. fst p \<notin> R) (nodes G)"
      "edges G' = filter (\<lambda>e. fst e \<notin> R \<and> snd e \<notin> R) (edges G)"
      "\<forall>e \<in> set (edges G). fst e \<in> R \<longrightarrow> snd e \<in> R"
    by blast
  from assms(4) R(1) have v: "v \<notin> R" by (auto simp: has_node_def node_ids_def)
  with R(3) assms(3) have u: "u \<notin> R" by auto
  from u assms(2) R(1) have 1: "has_node G' u" by (auto simp: has_node_def node_ids_def)
  from u v assms(3) R(2) have 2: "(u, v) \<in> set (edges G')" by auto
  have "map_of (filter (\<lambda>p. fst p \<notin> R) xs) u = map_of xs u" for xs :: "(node \<times> node_attrs) list"
    using u by (induction xs) auto
  with R(1) have 3: "node_attr G' u = node_attr G u" by (simp add: node_attr_def)
  from 1 2 3 show ?thesis by simp
qed

lemma has_node_attr:
  "has_node G n \<Longrightarrow> \<exists>a. node_attr G n = Some a \<and> (n, a) \<in> set (nodes G)"
  unfolding has_node_def node_ids_def node_attr_def
  by (metis (no_types, opaque_lifting) domIff dom_map_of_conv_image_fst list.set_map map_of_SomeD not_None_eq)

lemma tree_inv_depth_nonneg:
  assumes "tree_inv G r" "node_attr G n = Some a"
  shows "0 \<le> depth a"
proof -
  from assms(2) have "(n, a) \<in> set (nodes G)" by (auto simp: node_attr_def dest: map_of_SomeD)
  with assms(1) show ?thesis by (auto simp: tree_inv_def list_all_iff)
qed

lemma tree_inv_edge:
  assumes "tree_inv G r" "(u, v) \<in> set (edges G)"
  shows "\<exists>a b. node_attr G u = Some a \<and> node_attr G v = Some b \<and> depth b = depth a + 1
     \<and> has_node G u \<and> has_node G v"
proof -
  from assms have h: "has_node G u" "has_node G v"
    and d: "map_option depth (node_attr G v) = map_option (\<lambda>a. depth a + 1) (node_attr G u)"
    by (auto simp: tree_inv_def list_all_iff)
  from has_node_attr[OF h(1)] has_node_attr[OF h(2)] d h show ?thesis by auto
qed

lemma tree_inv_pred:
  assumes "tree_inv G r" "has_node G n" "n \<noteq> r"
  shows "\<exists>p. predecessors G n = [p] \<and> (p, n) \<in> set (edges G)"
proof -
  from assms have "in_degree G n = 1"
    by (auto simp: tree_inv_def list_all_iff has_node_def)
  then obtain p where p: "predecessors G n = [p]"
    by (auto simp: in_degree_def length_Suc_conv)
  then have "p \<in> set (predecessors G n)" by simp
  then have "(p, n) \<in> set (edges G)" by (auto simp: predecessors_def)
  with p show ?thesis by blast
qed

lemma tree_inv_depth0:
  assumes "tree_inv G r" "node_attr G n = Some a" "depth a = 0"
  shows "n = r"
proof (rule ccontr)
  assume "n \<noteq> r"
  from assms(2) have "has_node G n"
    by (auto simp: node_attr_def has_node_def node_ids_def dest!: map_of_SomeD intro: rev_image_eqI)
  from tree_inv_pred[OF assms(1) this \<open>n \<noteq> r\<close>] obtain p where "(p, n) \<in> set (edges G)" by blast
  from tree_inv_edge[OF assms(1) this] assms(2,3) obtain b where
    "node_attr G p = Some b" "depth b = -1" by auto
  with tree_inv_depth_nonneg[OF assms(1)] show False by fastforce
qed

lemma walk_up_tree:
  assumes "tree_inv G r"
  shows "node_attr G x = Some a \<Longrightarrow> depth a = int d \<Longrightarrow> d \<le> fuel \<Longrightarrow>
     \<exists>p. walk_up fuel G r x acc = Inr (p @ acc) \<and> length p = Suc d \<and> hd p = r \<and> last p = x
       \<and> (\<forall>i \<le> d. map_option depth (node_attr G (p ! i)) = Some (int i))
       \<and> (\<forall>i < d. (p ! i, p ! Suc i) \<in> set (edges G))"
proof (induction d arbitrary: x a fuel acc)
  case 0
  with tree_inv_depth0[OF assms, of x a] have "x = r" by simp
  then have "walk_up fuel G r x acc = Inr ([x] @ acc)" by (cases fuel) auto
  with 0 \<open>x = r\<close> show ?case by (intro exI[of _ "[x]"]) auto
next
  case (Suc d)
  from assms have "map_option depth (node_attr G r) = Some 0" by (simp add: tree_inv_def)
  with Suc.prems have xr: "x \<noteq> r" by auto
  from Suc.prems(1) have hx: "has_node G x"
    by (auto simp: node_attr_def has_node_def node_ids_def dest!: map_of_SomeD intro: rev_image_eqI)
  from tree_inv_pred[OF assms hx xr] obtain q where q: "predecessors G x = [q]" "(q, x) \<in> set (edges G)"
    by blast
  from tree_inv_edge[OF assms q(2)] Suc.prems obtain b where b: "node_attr G q = Some b" "depth b = int d"
    by auto
  from Suc.prems(3) obtain f where f: "fuel = Suc f" "d \<le> f" by (cases fuel) auto
  from Suc.IH[OF b f(2), of "x # acc"] obtain p where
    p: "walk_up f G r q (x # acc) = Inr (p @ x # acc)" "length p = Suc d" "hd p = r" "last p = q"
      "\<forall>i \<le> d. map_option depth (node_attr G (p ! i)) = Some (int i)"
      "\<forall>i < d. (p ! i, p ! Suc i) \<in> set (edges G)"
    by blast
  have w: "walk_up fuel G r x acc = Inr ((p @ [x]) @ acc)"
    using xr q(1) p(1) f(1) by simp
  from p(2) have pne: "p \<noteq> []" by auto
  have l: "length (p @ [x]) = Suc (Suc d)" using p(2) by simp
  have h: "hd (p @ [x]) = r" using pne p(3) by simp
  have la: "last (p @ [x]) = x" by simp
  have pd: "p ! d = q" using p(2,4) pne by (simp add: last_conv_nth)
  have dp: "\<forall>i \<le> Suc d. map_option depth (node_attr G ((p @ [x]) ! i)) = Some (int i)"
  proof (intro allI impI)
    fix i assume "i \<le> Suc d"
    show "map_option depth (node_attr G ((p @ [x]) ! i)) = Some (int i)"
    proof (cases "i = Suc d")
      case True
      with p(2) Suc.prems(1,2) show ?thesis by (simp add: nth_append)
    next
      case False
      with \<open>i \<le> Suc d\<close> have "i \<le> d" by simp
      with p(2,5) show ?thesis by (simp add: nth_append)
    qed
  qed
  have ed: "\<forall>i < Suc d. ((p @ [x]) ! i, (p @ [x]) ! Suc i) \<in> set (edges G)"
  proof (intro allI impI)
    fix i assume "i < Suc d"
    show "((p @ [x]) ! i, (p @ [x]) ! Suc i) \<in> set (edges G)"
    proof (cases "i = d")
      case True
      with p(2) pd q(2) show ?thesis by (simp add: nth_append)
    next
      case False
      with \<open>i < Suc d\<close> have "i < d" by simp
      with p(2,6) show ?thesis by (simp add: nth_append)
    qed
  qed
  from w l h la dp ed show ?case by blast
qed

lemma tree_inv_depth_bound:
  assumes "tree_inv G r" "node_attr G x = Some a" "depth a = int d"
  shows "d < length (nodes G)"
proof -
  from walk_up_tree[OF assms le_refl, of "[]"] obtain p where
    p: "length p = Suc d" "\<forall>i \<le> d. map_option depth (node_attr G (p ! i)) = Some (int i)"
    by auto
  have "distinct p"
    unfolding distinct_conv_nth
  proof (intro allI impI)
    fix i j assume "i < length p" "j < length p" "i \<noteq> j"
    with p have "map_option depth (node_attr G (p ! i)) = Some (int i)"
      "map_option depth (node_attr G (p ! j)) = Some (int j)" by auto
    with \<open>i \<noteq> j\<close> show "p ! i \<noteq> p ! j" by auto
  qed
  moreover have "set p \<subseteq> set (node_ids G)"
  proof
    fix n assume "n \<in> set p"
    then obtain i where "i < length p" "p ! i = n" by (auto simp: in_set_conv_nth)
    with p have "map_option depth (node_attr G n) = Some (int i)" by auto
    then have "node_attr G n \<noteq> None" by auto
    then show "n \<in> set (node_ids G)"
      by (auto simp: node_attr_def node_ids_def dest!: map_of_SomeD intro: rev_image_eqI)
  qed
  ultimately have "length p \<le> length (node_ids G)"
    by (metis card_mono distinct_card List.finite_set card_length le_trans)
  with p(1) show ?thesis by (simp add: node_ids_def)
qed

lemma shortest_path_tree:
  assumes "tree_inv G r" "has_node G x" "node_attr G x = Some a"
  shows "\<exists>p. shortest_path G r x = Inr p \<and> int (length p) = depth a + 1 \<and> hd p = r \<and> last p = x
       \<and> (\<forall>i < length p. map_option depth (node_attr G (p ! i)) = Some (int i))
       \<and> (\<forall>i. Suc i < length p \<longrightarrow> (p ! i, p ! Suc i) \<in> set (edges G))"
proof -
  from tree_inv_depth_nonneg[OF assms(1,3)] obtain d where d: "depth a = int d"
    using nonneg_int_cases by blast
  from tree_inv_depth_bound[OF assms(1,3) d] have "d \<le> length (nodes G)" by simp
  from walk_up_tree[OF assms(1,3) d this, of "[]"] obtain p where
    p: "walk_up (length (nodes G)) G r x [] = Inr p" "length p = Suc d" "hd p = r" "last p = x"
      "\<forall>i \<le> d. map_option depth (node_attr G (p ! i)) = Some (int i)"
      "\<forall>i < d. (p ! i, p ! Suc i) \<in> set (edges G)"
    by auto
  from assms(1) have "has_node G r" by (simp add: tree_inv_def)
  with assms(2) p(1) have "shortest_path G r x = Inr p" by (simp add: shortest_path_def)
  with p d show ?thesis by (intro exI[of _ p]) auto
qed

lemma shortest_path_tree_path:
  assumes "tree_inv G r" "has_node G x"
  shows "\<exists>p. shortest_path G r x = Inr p \<and> last p = x \<and> tree_path G p"
proof -
  from has_node_attr[OF assms(2)] obtain a where a: "node_attr G x = Some a" by blast
  from shortest_path_tree[OF assms a] obtain p where
    p: "shortest_path G r x = Inr p" "int (length p) = depth a + 1" "last p = x"
      "\<forall>i < length p. map_option depth (node_attr G (p ! i)) = Some (int i)"
      "\<forall>i. Suc i < length p \<longrightarrow> (p ! i, p ! Suc i) \<in> set (edges G)"
    by blast
  from p(2) tree_inv_depth_nonneg[OF assms(1) a] have pne: "p \<noteq> []" by auto
  have d: "distinct p"
    unfolding distinct_conv_nth
  proof (intro allI impI)
    fix i j assume "i < length p" "j < length p" "i \<noteq> j"
    with p(4) have "map_option depth (node_attr G (p ! i)) = Some (int i)"
      "map_option depth (node_attr G (p ! j)) = Some (int j)" by auto
    with \<open>i \<noteq> j\<close> show "p ! i \<noteq> p ! j" by auto
  qed
  have s: "set p \<subseteq> set (node_ids G)"
  proof
    fix n assume "n \<in> set p"
    then obtain i where "i < length p" "p ! i = n" by (auto simp: in_set_conv_nth)
    with p(4) have "map_option depth (node_attr G n) = Some (int i)" by auto
    then have "node_attr G n \<noteq> None" by auto
    then show "n \<in> set (node_ids G)"
      by (auto simp: node_attr_def node_ids_def dest!: map_of_SomeD intro: rev_image_eqI)
  qed
  from pne d s p(5) have "tree_path G p" by (simp add: tree_path_def)
  with p(1,3) show ?thesis by blast
qed

lemma paths_to_leaves_tree:
  assumes "tree_inv G r"
  shows "\<forall>x \<in> set xs. has_node G x \<Longrightarrow>
     \<exists>paths. paths_to_leaves G r xs = Inr paths \<and> map last paths = xs
       \<and> (\<forall>p \<in> set paths. tree_path G p)"
proof (induction xs)
  case Nil
  then show ?case by simp
next
  case (Cons x xs)
  then obtain paths where ih: "paths_to_leaves G r xs = Inr paths" "map last paths = xs"
    "\<forall>p \<in> set paths. tree_path G p" by auto
  from Cons.prems have "has_node G x" by simp
  from shortest_path_tree_path[OF assms this] obtain p where
    "shortest_path G r x = Inr p" "last p = x" "tree_path G p" by blast
  with ih show ?case by (intro exI[of _ "p # paths"]) simp
qed

text \<open>A set closed under the edges that meets a path holds the path's last node.\<close>

lemma closed_set_reaches_last:
  assumes "tree_path G p" "\<forall>e \<in> set (edges G). fst e \<in> R \<longrightarrow> snd e \<in> R"
    and "i < length p" "p ! i \<in> R"
  shows "last p \<in> R"
proof -
  have "i + k < length p \<Longrightarrow> p ! (i + k) \<in> R" for k
  proof (induction k)
    case 0
    with assms(4) show ?case by simp
  next
    case (Suc k)
    then have "p ! (i + k) \<in> R" "Suc (i + k) < length p" by auto
    moreover from assms(1) \<open>Suc (i + k) < length p\<close>
    have "(p ! (i + k), p ! Suc (i + k)) \<in> set (edges G)" by (simp add: tree_path_def)
    ultimately show ?case using assms(2) by fastforce
  qed
  from this[of "length p - 1 - i"] assms(1,3) show ?thesis
    by (simp add: tree_path_def last_conv_nth)
qed

lemma remove_childless_ok:
  assumes "nodes H = filter (\<lambda>p. fst p \<notin> R) (nodes G)"
      "edges H = filter (\<lambda>e. fst e \<notin> R \<and> snd e \<notin> R) (edges G)"
      "\<forall>e \<in> set (edges G). fst e \<in> R \<longrightarrow> snd e \<in> R"
    and "set ns \<subseteq> set (node_ids G)" "distinct ns" "set ns \<inter> R = {}"
  shows "\<exists>H'. remove_childless H ns = Inr H'"
  using assms
proof (induction ns arbitrary: H R)
  case Nil
  then show ?case by simp
next
  case (Cons n ns)
  from Cons.prems(1,4,6) have hn: "has_node H n"
    by (auto simp: has_node_def node_ids_def)
  then have "\<exists>H1. remove_if_childless H n = Inr H1"
    by (simp add: remove_if_childless_def remove_node_def)
  then obtain H1 where s1: "remove_if_childless H n = Inr H1" by blast
  from remove_if_childless_inv[OF Cons.prems(1-3) s1] obtain R1 where
    r1: "R \<subseteq> R1" "R1 \<subseteq> insert n R" "nodes H1 = filter (\<lambda>p. fst p \<notin> R1) (nodes G)"
      "edges H1 = filter (\<lambda>e. fst e \<notin> R1 \<and> snd e \<notin> R1) (edges G)"
      "\<forall>e \<in> set (edges G). fst e \<in> R1 \<longrightarrow> snd e \<in> R1"
    by blast
  from Cons.prems(4-6) r1(2) have "set ns \<subseteq> set (node_ids G)" "distinct ns" "set ns \<inter> R1 = {}"
    by auto
  from Cons.IH[OF r1(3-5) this] s1 show ?case by simp
qed

lemma leaf_not_on_other_path:
  assumes "tree_path G p" "out_degree G x = 0" "x \<noteq> last p"
  shows "x \<notin> set p"
proof
  assume "x \<in> set p"
  then obtain i where i: "i < length p" "p ! i = x" by (auto simp: in_set_conv_nth)
  from assms(1) have pne: "p \<noteq> []" by (simp add: tree_path_def)
  with assms(3) i have "Suc i < length p"
    by (metis Suc_lessI diff_Suc_1 last_conv_nth)
  with assms(1) i have "(x, p ! Suc i) \<in> set (edges G)" by (auto simp: tree_path_def)
  then have "p ! Suc i \<in> set (successors G x)" by (force simp: successors_def)
  with assms(2) show False by (simp add: out_degree_def)
qed

lemma filter_paths_ok:
  assumes "nodes H = filter (\<lambda>p. fst p \<notin> R) (nodes G)"
      "edges H = filter (\<lambda>e. fst e \<notin> R \<and> snd e \<notin> R) (edges G)"
      "\<forall>e \<in> set (edges G). fst e \<in> R \<longrightarrow> snd e \<in> R"
    and "\<forall>p \<in> set ps. tree_path G p \<and> out_degree G (last p) = 0 \<and> last p \<notin> R"
    and "distinct (map last ps)"
  shows "\<exists>H'. filter_paths m H ps = Inr H'"
  using assms
proof (induction ps arbitrary: H R)
  case Nil
  then show ?case by simp
next
  case (Cons p ps)
  show ?case
  proof (cases "int (length p) > m")
    case True
    from Cons.prems(4,5) have "\<forall>p \<in> set ps. tree_path G p \<and> out_degree G (last p) = 0 \<and> last p \<notin> R"
      "distinct (map last ps)" by auto
    from Cons.IH[OF Cons.prems(1-3) this] True show ?thesis by simp
  next
    case False
    from Cons.prems(4) have tp: "tree_path G p" and lp: "last p \<notin> R" by auto
    have disj: "set p \<inter> R = {}"
    proof (rule ccontr)
      assume "set p \<inter> R \<noteq> {}"
      then obtain i where "i < length p" "p ! i \<in> R" by (auto simp: in_set_conv_nth)
      from closed_set_reaches_last[OF tp Cons.prems(3) this] lp show False by simp
    qed
    from tp have "set (rev p) \<subseteq> set (node_ids G)" "distinct (rev p)"
      by (auto simp: tree_path_def)
    moreover from disj have "set (rev p) \<inter> R = {}" by simp
    ultimately obtain H1 where s1: "remove_childless H (rev p) = Inr H1"
      using remove_childless_ok[OF Cons.prems(1-3)] by blast
    from remove_childless_inv[OF Cons.prems(1-3) s1] obtain R1 where
      r1: "R \<subseteq> R1" "R1 \<subseteq> set (rev p) \<union> R" "nodes H1 = filter (\<lambda>p. fst p \<notin> R1) (nodes G)"
        "edges H1 = filter (\<lambda>e. fst e \<notin> R1 \<and> snd e \<notin> R1) (edges G)"
        "\<forall>e \<in> set (edges G). fst e \<in> R1 \<longrightarrow> snd e \<in> R1"
      by blast
    have "\<forall>q \<in> set ps. tree_path G q \<and> out_degree G (last q) = 0 \<and> last q \<notin> R1"
    proof
      fix q assume q: "q \<in> set ps"
      with Cons.prems(4) have a: "tree_path G q" "out_degree G (last q) = 0" "last q \<notin> R" by auto
      from Cons.prems(5) have "last p \<notin> last ` set ps" by simp
      with q have "last q \<noteq> last p" by (metis imageI)
      from leaf_not_on_other_path[OF tp a(2) this] a(3) r1(2) have "last q \<notin> R1" by auto
      with a show "tree_path G q \<and> out_degree G (last q) = 0 \<and> last q \<notin> R1" by simp
    qed
    moreover from Cons.prems(5) have "distinct (map last ps)" by simp
    ultimately obtain H' where "filter_paths m H1 ps = Inr H'"
      using Cons.IH[OF r1(3-5)] by blast
    with s1 False show ?thesis by simp
  qed
qed

lemma filter_leaves_completes:
  assumes "tree_inv G r"
  shows "\<exists>G'. filter_leaves_under_minimum_depth G m r = Inr G'"
proof -
  have h: "\<forall>x \<in> set (profile_leaves G). has_node G x"
    by (auto simp: profile_leaves_def has_node_def)
  from paths_to_leaves_tree[OF assms h] obtain paths where
    p: "paths_to_leaves G r (profile_leaves G) = Inr paths" "map last paths = profile_leaves G"
      "\<forall>p \<in> set paths. tree_path G p" by blast
  from assms have "distinct (node_ids G)" by (simp add: tree_inv_def)
  then have d: "distinct (map last paths)" by (simp add: p(2) profile_leaves_def)
  have l: "\<forall>p \<in> set paths. tree_path G p \<and> out_degree G (last p) = 0 \<and> last p \<notin> {}"
  proof
    fix q assume q: "q \<in> set paths"
    then have "last q \<in> set (map last paths)" by simp
    then have "out_degree G (last q) = 0" by (simp add: p(2) profile_leaves_def)
    with p(3) q show "tree_path G q \<and> out_degree G (last q) = 0 \<and> last q \<notin> {}" by simp
  qed
  from filter_paths_ok[of G "{}" G paths m, OF _ _ _ l d] obtain G' where
    "filter_paths m G paths = Inr G'" by auto
  with p(1) show ?thesis by (simp add: filter_leaves_under_minimum_depth_def)
qed


lemma risk_parent_filtered:
  "filter_leaves_under_minimum_depth risk_parent 3 0 = Inr \<lparr>nodes = [], edges = []\<rparr>"
  by (simp add: filter_leaves_under_minimum_depth_def profile_leaves_def shortest_path_def
      remove_if_childless_def risk_parent_def graph_defs)

lemma mixed_depths_filtered:
  "filter_leaves_under_minimum_depth mixed_depths 2 0 = Inr deep_branch"
  by (simp add: filter_leaves_under_minimum_depth_def profile_leaves_def shortest_path_def
      remove_if_childless_def mixed_depths_def deep_branch_def graph_defs)

text \<open>
  C6, amended. The leaf depth filter removes a node only when it has no children: a
  node of the input tree that has a child among the nodes the filter leaves is left
  too, with its edge to that child and its attributes, so the shared prefix of a
  surviving deeper profile stays intact. (The walk up a too-shallow path visits every
  node of the path, the root included; see the counterexample.)
\<close>

theorem filter_keeps_nodes_with_children:
  "filter_leaves_under_minimum_depth G m r = Inr G' \<Longrightarrow> has_node G u \<Longrightarrow>
   (u, v) \<in> set (edges G) \<Longrightarrow> has_node G' v \<Longrightarrow>
   has_node G' u \<and> (u, v) \<in> set (edges G') \<and> node_attr G' u = node_attr G u"
  by (rule filter_keeps_parents)

theorem filter_keeps_nodes_with_children_witness:
  "filter_leaves_under_minimum_depth mixed_depths 2 0 = Inr deep_branch
   \<and> has_node mixed_depths 1 \<and> (1, 3) \<in> set (edges mixed_depths) \<and> has_node deep_branch 3
   \<and> has_node deep_branch 1 \<and> (1, 3) \<in> set (edges deep_branch)
   \<and> node_attr deep_branch 1 = node_attr mixed_depths 1"
  using filter_keeps_nodes_with_children[of mixed_depths 2 0 deep_branch 1 3]
    mixed_depths_filtered
  by (simp add: mixed_depths_def deep_branch_def has_node_def node_ids_def)

text \<open>
  The claim as stated fails: with \<open>min_depth_required = 3\<close> the filter removes the only
  leaf of \<open>risk_parent\<close> and then the root, which is on the leaf's path and has no child
  left.
\<close>

theorem filter_removes_root_counterexample:
  "has_node risk_parent 0
   \<and> filter_leaves_under_minimum_depth risk_parent 3 0 = Inr \<lparr>nodes = [], edges = []\<rparr>"
  using risk_parent_filtered by (simp add: risk_parent_def has_node_def node_ids_def)

lemma chance_child_inv: "tree_inv chance_child 0"
  by (simp add: tree_inv_def chance_child_def graph_defs)

text \<open>
  C5, amended. On every tree the leaf depth filter completes without raising, also
  when every profile is too shallow and it removes every node.
\<close>

theorem filter_completes_on_every_tree:
  "tree_inv G r \<Longrightarrow> \<exists>G'. filter_leaves_under_minimum_depth G m r = Inr G'"
  by (rule filter_leaves_completes)

theorem filter_completes_on_every_tree_witness:
  "tree_inv chance_child 0 \<and> (\<exists>G'. filter_leaves_under_minimum_depth chance_child 3 0 = Inr G')"
  using filter_completes_on_every_tree[of chance_child 0 3] chance_child_inv by simp

text \<open>
  The claim as stated fails. \<open>prune_tree\<close> removes the inbetween leaf of
  \<open>inbetween_child\<close>; the root is then a leaf without a predecessor, and line 350 raises
  IndexError. On \<open>chance_child\<close> \<open>prune_tree\<close> removes nothing, and the filter with
  \<open>min_depth_required = 3\<close> then removes the leaf and the root: no node is left.
\<close>

theorem zero_profiles_counterexample:
  "prune_tree inbetween_child 3 = Some (Inl IndexError)
   \<and> prune_tree chance_child 3 = Some (Inr chance_child)
   \<and> filter_leaves_under_minimum_depth chance_child 3 0 = Inr \<lparr>nodes = [], edges = []\<rparr>"
proof -
  have "prune_tree inbetween_child 3 = Some (Inl IndexError)"
    by (subst prune_tree.simps) (simp add: inbetween_child_def graph_defs)
  moreover have "prune_tree chance_child 3 = Some (Inr chance_child)"
    by (subst prune_tree.simps) (simp add: chance_child_def graph_defs)
  moreover have
    "filter_leaves_under_minimum_depth chance_child 3 0 = Inr \<lparr>nodes = [], edges = []\<rparr>"
    by (simp add: filter_leaves_under_minimum_depth_def profile_leaves_def shortest_path_def
        remove_if_childless_def chance_child_def graph_defs)
  ultimately show ?thesis by simp
qed

section \<open>Properties of export_profiles_to_dict_from_tree\<close>













text \<open>
  C10. The exported profiles do not depend on the parameter \<open>root_node_id\<close>: the paths
  are computed from node 0 whatever is passed.
\<close>

theorem export_ignores_root_node_id:
  "export_profiles_to_dict_from_tree G dimensions r1 =
   export_profiles_to_dict_from_tree G dimensions r2"
  by (simp add: export_profiles_to_dict_from_tree_def)

section \<open>Properties of build_tree\<close>

lemma val_order_inj: "val_order a = val_order b \<Longrightarrow> a = b"
  by (cases a; cases b) auto

lemma sort_key_same_set:
  fixes f :: "'a \<Rightarrow> 'b::linorder"
  assumes "set xs = set ys" "distinct (map f xs)" "distinct (map f ys)"
  shows "sort_key f xs = sort_key f ys"
proof -
  have inj: "inj_on f (set xs)" using assms(2) by (simp add: distinct_map)
  have "map f (sort_key f xs) = map f (sort_key f ys)"
  proof (rule sorted_distinct_set_unique)
    show "sorted (map f (sort_key f xs))" "sorted (map f (sort_key f ys))" by simp_all
    show "distinct (map f (sort_key f xs))" using assms(2) by (simp add: distinct_map)
    show "distinct (map f (sort_key f ys))" using assms(3) by (simp add: distinct_map)
    show "set (map f (sort_key f xs)) = set (map f (sort_key f ys))" using assms(1) by simp
  qed
  moreover have "inj_on f (set (sort_key f xs) \<union> set (sort_key f ys))"
    using inj assms(1) by simp
  ultimately show ?thesis by (simp add: inj_on_map_eq_map)
qed

lemma collect_layer_same_groups:
  assumes "set (df_group_by df1 fs) = set (df_group_by df2 fs)"
    and "distinct (map group_values (df_group_by df1 fs))"
    and "distinct (map group_values (df_group_by df2 fs))"
  shows "collect_layer df1 ps fs = collect_layer df2 ps fs"
proof -
  let ?c = "\<lambda>r. (r, classify (applicant_hit_percentage r) (row_refusal_percentage r)
                        (chance_max_hit_percentage_threshold ps)
                        (chance_max_refusal_percentage_threshold ps)
                        (risk_min_hit_percentage_threshold ps))"
  let ?P = "\<lambda>r. minimal_groupsize ps \<le> group_size r"
  let ?k = "\<lambda>r :: agg_row \<times> string. map val_order (group_values (fst r))"
  have d: "distinct (map ?k (map ?c (filter ?P xs)))" if "distinct (map group_values xs)"
    for xs :: "agg_row list"
  proof -
    have "inj val_order" by (rule injI) (rule val_order_inj)
    then have "inj (map val_order)" by simp
    moreover from that have "distinct (map group_values (filter ?P xs))"
      by (rule distinct_map_filter)
    ultimately have "distinct (map (map val_order) (map group_values (filter ?P xs)))"
      by (simp add: distinct_map inj_on_def inj_def)
    then show ?thesis by (simp add: comp_def)
  qed
  have "set (map ?c (filter ?P (df_group_by df1 fs))) = set (map ?c (filter ?P (df_group_by df2 fs)))"
    using assms(1) by simp
  from sort_key_same_set[OF this d[OF assms(2)] d[OF assms(3)]]
  show ?thesis by (simp add: collect_layer_def)
qed

lemma build_layers_same_groups:
  assumes "\<And>fs. collect_layer df1 ps fs = collect_layer df2 ps fs"
  shows "build_layers df1 ps i fs st = build_layers df2 ps i fs st"
  by (induction fs arbitrary: i st) (auto simp: assms split: sum.splits)

lemma build_tree_same_groups:
  assumes "df_count df1 = df_count df2"
    and "\<forall>fs. set (df_group_by df1 fs) = set (df_group_by df2 fs)
           \<and> distinct (map group_values (df_group_by df1 fs))
           \<and> distinct (map group_values (df_group_by df2 fs))"
  shows "build_tree df1 ps = build_tree df2 ps"
proof -
  have "collect_layer df1 ps fs = collect_layer df2 ps fs" for fs
    using assms(2) by (intro collect_layer_same_groups) auto
  then have "build_layers df1 ps i fs st = build_layers df2 ps i fs st" for i fs st
    by (rule build_layers_same_groups)
  moreover have "initial_state df1 = initial_state df2"
    using assms(1) by (simp add: initial_state_def)
  ultimately show ?thesis by (simp add: build_tree_def)
qed

lemma collect_layer_sorted:
  "sorted (map (\<lambda>r. map val_order (group_values (fst r))) (collect_layer df ps fs))"
  by (simp add: collect_layer_def)

lemma add_combination_number:
  "add_combination fs f d st row = Inr st' \<Longrightarrow>
     current_node_number st' = current_node_number st + 1"
  by (auto simp: add_combination_def split: option.splits sum.splits)

lemma add_combinations_number:
  "add_combinations fs f d st rows = Inr st' \<Longrightarrow>
     current_node_number st' = current_node_number st + int (length rows)"
proof (induction rows arbitrary: st)
  case Nil
  then show ?case by simp
next
  case (Cons row rows)
  then obtain st1 where a: "add_combination fs f d st row = Inr st1"
    and b: "add_combinations fs f d st1 rows = Inr st'"
    by (auto split: sum.splits)
  from add_combination_number[OF a] Cons.IH[OF b] show ?case by simp
qed















lemma inconsistent_values:
  "combination_values [''country'', ''age_band'']
     (group_row [VStr ''B'', VStr ''old''] (1 / 2) (1 / 20) 60) [''country'', ''age_band''] []
   = Inr [(''country'', VStr ''B''), (''age_band'', VStr ''old'')]"
  by (simp add: row_field_def group_row_def)



text \<open>
  C8. The build is deterministic. Two dataframes with the same row count whose
  grouped aggregates hold the same groups, in whatever order Spark returns them, give
  the same tree. The rows of a layer are processed in ascending lexicographic order of
  their tuples of feature values, and each row takes the next node number, so node
  ids run depth by depth and, within a layer, in that order.
\<close>

theorem build_tree_deterministic:
  assumes "df_count df1 = df_count df2"
    and "\<forall>fs. set (df_group_by df1 fs) = set (df_group_by df2 fs)
           \<and> distinct (map group_values (df_group_by df1 fs))
           \<and> distinct (map group_values (df_group_by df2 fs))"
  shows "build_tree df1 ps = build_tree df2 ps
     \<and> (\<forall>fs. sorted (map (\<lambda>r. map val_order (group_values (fst r))) (collect_layer df1 ps fs)))
     \<and> (\<forall>fs f d st rows st'. add_combinations fs f d st rows = Inr st' \<longrightarrow>
           current_node_number st' = current_node_number st + int (length rows))"
proof (intro conjI allI impI)
  show "build_tree df1 ps = build_tree df2 ps" by (rule build_tree_same_groups[OF assms])
next
  fix fs
  show "sorted (map (\<lambda>r. map val_order (group_values (fst r))) (collect_layer df1 ps fs))"
    by (rule collect_layer_sorted)
next
  fix fs f d st rows st'
  assume "add_combinations fs f d st rows = Inr st'"
  then show "current_node_number st' = current_node_number st + int (length rows)"
    by (rule add_combinations_number)
qed

theorem build_tree_deterministic_witness:
  "df_count scenario_df = df_count scenario_df_reordered
   \<and> build_tree scenario_df scenario_parameters
       = build_tree scenario_df_reordered scenario_parameters"
proof -
  have c: "df_count scenario_df = df_count scenario_df_reordered"
    by (simp add: scenario_df_def scenario_df_reordered_def)
  have g: "\<forall>fs. set (df_group_by scenario_df fs) = set (df_group_by scenario_df_reordered fs)
           \<and> distinct (map group_values (df_group_by scenario_df fs))
           \<and> distinct (map group_values (df_group_by scenario_df_reordered fs))"
    by (simp add: scenario_df_def scenario_df_reordered_def group_row_def insert_commute)
  from build_tree_deterministic[OF c g, of scenario_parameters] c show ?thesis by blast
qed





end
